theory Spec2Isabelle
  imports Main "HOL-Library.Word" "HOL-Library.Signed_Division"
begin

unbundle bit_operations_syntax

section \<open>Data model\<close>

text \<open>
  A Go \<^verbatim>\<open>string\<close> is a sequence of bytes; it is modelled by \<^typ>\<open>string\<close>, a list of
  8-bit characters, and \<^term>\<open>of_char\<close> reads the value of a byte. Go's \<^verbatim>\<open>int32\<close> and
  \<^verbatim>\<open>rune\<close> are 32-bit words whose arithmetic wraps around; \<^term>\<open>sint\<close> reads such a word
  as the signed number the Go program sees.
\<close>

type_synonym int32 = "32 word"
type_synonym rune = "32 word"

section \<open>Iterating over a string: \<^verbatim>\<open>for _, r := range s\<close>\<close>

text \<open>
  The loop of \<^verbatim>\<open>hashCode\<close> ranges over a string, which decodes UTF-8: each iteration
  yields one code point and advances by its encoded width, and a byte that does not
  start a well-formed sequence yields \<^verbatim>\<open>U+FFFD\<close> and advances by one byte. The decoder
  below follows \<^verbatim>\<open>utf8.DecodeRuneInString\<close> of the Go library: \<open>first\<close> gives, for a
  leading byte, the length of the sequence and the range accepted for the second byte.
  Bytes are read as natural numbers; \<^verbatim>\<open>s0 & 0x1F\<close> is \<open>s0 mod 32\<close>, and shifting left and
  or-ing disjoint bit fields is multiplying and adding.
\<close>

definition RuneError :: nat where
  "RuneError = 0xFFFD"

definition first :: "nat \<Rightarrow> (nat \<times> nat \<times> nat) option" where
  "first b =
     (if 0xC2 \<le> b \<and> b \<le> 0xDF then Some (2, 0x80, 0xBF)
      else if b = 0xE0 then Some (3, 0xA0, 0xBF)
      else if 0xE1 \<le> b \<and> b \<le> 0xEC then Some (3, 0x80, 0xBF)
      else if b = 0xED then Some (3, 0x80, 0x9F)
      else if 0xEE \<le> b \<and> b \<le> 0xEF then Some (3, 0x80, 0xBF)
      else if b = 0xF0 then Some (4, 0x90, 0xBF)
      else if 0xF1 \<le> b \<and> b \<le> 0xF3 then Some (4, 0x80, 0xBF)
      else if b = 0xF4 then Some (4, 0x80, 0x8F)
      else None)"

fun DecodeRuneInString :: "nat list \<Rightarrow> nat \<times> nat" where
  "DecodeRuneInString [] = (RuneError, 0)"
| "DecodeRuneInString (s0 # rest) =
     (if s0 < 0x80 then (s0, 1)
      else case first s0 of
        None \<Rightarrow> (RuneError, 1)
      | Some (sz, lo, hi) \<Rightarrow>
          if length (s0 # rest) < sz then (RuneError, 1)
          else let s1 = rest ! 0 in
          if s1 < lo \<or> hi < s1 then (RuneError, 1)
          else if sz \<le> 2 then (s0 mod 32 * 64 + s1 mod 64, 2)
          else let s2 = rest ! 1 in
          if s2 < 0x80 \<or> 0xBF < s2 then (RuneError, 1)
          else if sz \<le> 3 then (s0 mod 16 * 4096 + s1 mod 64 * 64 + s2 mod 64, 3)
          else let s3 = rest ! 2 in
          if s3 < 0x80 \<or> 0xBF < s3 then (RuneError, 1)
          else (s0 mod 8 * 262144 + s1 mod 64 * 4096 + s2 mod 64 * 64 + s3 mod 64, 4))"

lemma DecodeRuneInString_width:
  "1 \<le> snd (DecodeRuneInString (b # bs))" "snd (DecodeRuneInString (b # bs)) \<le> 4"
  by (auto simp: Let_def split: option.splits)

function range_runes :: "nat list \<Rightarrow> nat list" where
  "range_runes [] = []"
| "range_runes (b # bs) =
     (case DecodeRuneInString (b # bs) of (r, w) \<Rightarrow> r # range_runes (drop w (b # bs)))"
  by pat_completeness auto
termination
proof (relation "measure length")
  show "wf (measure length)" by simp
next
  fix b :: nat and bs r w
  assume "(r, w) = DecodeRuneInString (b # bs)"
  then have "w = snd (DecodeRuneInString (b # bs))"
    by (metis snd_conv)
  with DecodeRuneInString_width(1) [of b bs]
  show "(drop w (b # bs), b # bs) \<in> measure length"
    by simp
qed

definition runes :: "string \<Rightarrow> rune list" where
  "runes s = map of_nat (range_runes (map of_char s))"

section \<open>Partitioner\<close>

text \<open>
  \<^verbatim>\<open>utf16.EncodeRune\<close> of the Go library: the surrogate pair of a code point of the
  supplementary planes, and \<^verbatim>\<open>(U+FFFD, U+FFFD)\<close> for every other rune. The comparisons
  are signed and \<^verbatim>\<open>>>\<close> is the arithmetic shift, as on Go's \<^verbatim>\<open>int32\<close>.
\<close>

definition EncodeRune :: "rune \<Rightarrow> rune \<times> rune" where
  "EncodeRune r =
     (if r <s 0x10000 \<or> 0x10FFFF <s r then (0xFFFD, 0xFFFD)
      else let r' = r - 0x10000
           in (0xD800 + (signed_drop_bit 10 r' AND 0x3FF), 0xDC00 + (r' AND 0x3FF)))"

text \<open>The body of the loop of \<^verbatim>\<open>hashCode\<close>, and the loop over the runes of the key.\<close>

definition hashCode_step :: "int32 \<Rightarrow> rune \<Rightarrow> int32" where
  "hashCode_step hc r =
     (case EncodeRune r of (r1, r2) \<Rightarrow>
        if r1 = 0xFFFD \<and> r1 = r2 then hc * 31 + r
        else (hc * 31 + r1) * 31 + r2)"

fun hashCode_loop :: "int32 \<Rightarrow> rune list \<Rightarrow> int32" where
  "hashCode_loop hc [] = hc"
| "hashCode_loop hc (r # rs) = hashCode_loop (hashCode_step hc r) rs"

definition hashCode :: "string \<Rightarrow> int32" where
  "hashCode s = hashCode_loop 0 (runes s)"

definition kafkaAbs :: "int32 \<Rightarrow> int32" where
  "kafkaAbs i =
     (if i = - 2147483648 then 0
      else if i <s 0 then i * (- 1)
      else i)"

text \<open>
  Go's \<^verbatim>\<open>%\<close> on \<^verbatim>\<open>int32\<close> is the remainder of the division that truncates towards zero.
  It panics on a zero divisor; its only use below is guarded by \<^verbatim>\<open>partitions <= 0\<close>.
\<close>

definition rem32 :: "int32 \<Rightarrow> int32 \<Rightarrow> int32" where
  "rem32 a b = word_of_int (sint a smod sint b)"

definition hashCodePartition :: "string \<Rightarrow> int32 \<Rightarrow> int32" where
  "hashCodePartition key partitions =
     (if partitions \<le>s 0 then - 1
      else rem32 (kafkaAbs (hashCode key)) partitions)"

section \<open>Reference definitions\<close>

text \<open>
  The definitions of this section are not taken from the program. They state what
  the partitioner is compared with: Unicode scalar values, their UTF-8 and UTF-16
  encodings, and the string hash of the JVM, which the comment of \<^verbatim>\<open>hashCode\<close> refers to.
\<close>

text \<open>A Unicode scalar value: a code point that is not a surrogate.\<close>

definition scalar :: "nat \<Rightarrow> bool" where
  "scalar cp = (cp \<le> 0x10FFFF \<and> \<not> (0xD800 \<le> cp \<and> cp \<le> 0xDFFF))"

text \<open>The UTF-8 encoding of a code point, and of a sequence of code points as a string.\<close>

definition utf8_bytes :: "nat \<Rightarrow> nat list" where
  "utf8_bytes cp =
     (if cp < 0x80 then [cp]
      else if cp < 0x800 then [0xC0 + cp div 64, 0x80 + cp mod 64]
      else if cp < 0x10000 then [0xE0 + cp div 4096, 0x80 + cp div 64 mod 64, 0x80 + cp mod 64]
      else [0xF0 + cp div 262144, 0x80 + cp div 4096 mod 64, 0x80 + cp div 64 mod 64,
            0x80 + cp mod 64])"

definition utf8_string :: "nat list \<Rightarrow> string" where
  "utf8_string cps = map char_of (concat (map utf8_bytes cps))"

text \<open>
  The UTF-16 encoding: a code point of the Basic Multilingual Plane is one 16-bit unit,
  any other code point is a high surrogate followed by a low surrogate.
\<close>

definition high_surrogate :: "nat \<Rightarrow> nat" where
  "high_surrogate cp = 0xD800 + (cp - 0x10000) div 0x400"

definition low_surrogate :: "nat \<Rightarrow> nat" where
  "low_surrogate cp = 0xDC00 + (cp - 0x10000) mod 0x400"

fun utf16_units :: "nat list \<Rightarrow> nat list" where
  "utf16_units [] = []"
| "utf16_units (cp # cps) =
     (if cp < 0x10000 then [cp] else [high_surrogate cp, low_surrogate cp]) @ utf16_units cps"

text \<open>
  The hash of a Java string with the 16-bit units \<open>s[0], \<dots>, s[n-1]\<close>, as the JDK
  documents it: \<open>s[0] * 31^(n-1) + s[1] * 31^(n-2) + \<dots> + s[n-1]\<close> in \<^verbatim>\<open>int\<close> arithmetic.
\<close>

fun jvm_hashCode :: "nat list \<Rightarrow> int32" where
  "jvm_hashCode [] = 0"
| "jvm_hashCode (u # us) = of_nat u * 31 ^ length us + jvm_hashCode us"

text \<open>
  What the sanitizer is compared with: the part of a string behind the last occurrence
  of a separator, and the characters that a client identifier may contain.
\<close>

definition after_last :: "char \<Rightarrow> string \<Rightarrow> string" where
  "after_last sep u = rev (takeWhile (\<lambda>c. c \<noteq> sep) (rev u))"

definition client_id_characters :: string where
  "client_id_characters =
     ''abcdefghijklmnopqrstuvwxyz'' @ ''ABCDEFGHIJKLMNOPQRSTUVWXYZ'' @ ''0123456789'' @ ''_-''"

section \<open>Identity sanitizer\<close>

text \<open>
  \<^verbatim>\<open>strings.Split(u, "\\")\<close> cuts the string at every occurrence of the separator,
  here the single byte \<^verbatim>\<open>0x5C\<close>: the library looks for the first occurrence, keeps what
  precedes it as a segment and goes on behind it; what is left when no separator
  remains is the last segment.
\<close>

fun Index :: "string \<Rightarrow> char \<Rightarrow> nat option" where
  "Index [] sep = None"
| "Index (c # cs) sep = (if c = sep then Some 0 else map_option Suc (Index cs sep))"

lemma Index_less: "Index s sep = Some m \<Longrightarrow> m < length s"
  by (induction s arbitrary: m) (auto split: if_splits)

function Split :: "string \<Rightarrow> char \<Rightarrow> string list" where
  "Split s sep =
     (case Index s sep of
        None \<Rightarrow> [s]
      | Some m \<Rightarrow> take m s # Split (drop (m + 1) s) sep)"
  by pat_completeness auto
termination
proof (relation "measure (\<lambda>(s, sep). length s)")
  show "wf (measure (\<lambda>(s, sep). length s))" by simp
next
  fix s :: string and sep m
  assume "Index s sep = Some m"
  then have "m < length s" by (rule Index_less)
  then show "((drop (m + 1) s, sep), (s, sep)) \<in> measure (\<lambda>(s, sep). length s)"
    by simp
qed

text \<open>
  The regular expression \<^verbatim>\<open>[^a-zA-Z0-9_-]\<close> matches exactly one code point, any that is
  not an ASCII letter, a digit, \<^verbatim>\<open>_\<close> or \<^verbatim>\<open>-\<close>. Go's \<^verbatim>\<open>regexp\<close> reads its input as UTF-8
  and takes each byte of an invalid sequence for \<^verbatim>\<open>U+FFFD\<close>, as the decoder above does.
\<close>

definition invalidClientIDCharactersRegExp :: "nat \<Rightarrow> bool" where
  "invalidClientIDCharactersRegExp r =
     (\<not> (0x61 \<le> r \<and> r \<le> 0x7A \<or> 0x41 \<le> r \<and> r \<le> 0x5A \<or> 0x30 \<le> r \<and> r \<le> 0x39
          \<or> r = 0x5F \<or> r = 0x2D))"

text \<open>
  \<^verbatim>\<open>re.ReplaceAllString(src, repl)\<close> for an expression \<open>re\<close> that matches single code
  points and a replacement without \<^verbatim>\<open>$\<close>: every matching code point is replaced by
  \<open>repl\<close>, and the bytes of the others are copied.
\<close>

function ReplaceAllString :: "(nat \<Rightarrow> bool) \<Rightarrow> string \<Rightarrow> string \<Rightarrow> string" where
  "ReplaceAllString re [] repl = []"
| "ReplaceAllString re (c # cs) repl =
     (case DecodeRuneInString (map of_char (c # cs)) of (r, w) \<Rightarrow>
        (if re r then repl else take w (c # cs)) @ ReplaceAllString re (drop w (c # cs)) repl)"
  by pat_completeness auto
termination
proof (relation "measure (\<lambda>(re, src, repl). length src)")
  show "wf (measure (\<lambda>(re, src, repl). length src))" by simp
next
  fix re :: "nat \<Rightarrow> bool" and c :: char and cs repl :: string and r w
  assume "(r, w) = DecodeRuneInString (map of_char (c # cs))"
  then have "w = snd (DecodeRuneInString (of_char c # map of_char cs))"
    by (metis list.simps(9) snd_conv)
  with DecodeRuneInString_width(1) [of "of_char c" "map of_char cs"]
  show "((re, drop w (c # cs), repl), (re, c # cs, repl))
      \<in> measure (\<lambda>(re, src, repl). length src)"
    by simp
qed

definition sanitizeUsername :: "string \<Rightarrow> string" where
  "sanitizeUsername u =
     (let s = Split u (CHR 0x5C);
          u = s ! (length s - 1)
      in ReplaceAllString invalidClientIDCharactersRegExp u [])"

section \<open>Random token generator\<close>








section \<open>Version resolver\<close>

text \<open>
  The versions of the client library that \<^verbatim>\<open>kafkaVersion\<close> names. \<^verbatim>\<open>failf\<close> writes the
  formatted message and a newline to the standard error stream and ends the process
  with status 1, so that the \<^verbatim>\<open>return\<close> behind it is never reached: a call of \<^verbatim>\<open>failf\<close>
  is the result \<open>Inl\<close> of the function that makes it. The message is kept as the
  format and its arguments.
\<close>

datatype KafkaVersion =
  V0_8_2_0 | V0_8_2_1 | V0_8_2_2 | V0_9_0_0 | V0_9_0_1 | V0_10_0_0 | V0_10_0_1 | V0_10_1_0
  | V0_10_2_0

datatype exit = Exit (stderr: "string \<times> string list") (status: int)

definition failf :: "string \<Rightarrow> string list \<Rightarrow> exit" where
  "failf msg args = Exit (msg @ [CHR 0x0A], args) 1"

definition unsupported_kafka_version :: string where
  "unsupported_kafka_version =
     ''unsupported kafka version %#v - supported: v0.8.2.0, v0.8.2.1, v0.8.2.2, ''
     @ ''v0.9.0.0, v0.9.0.1, v0.10.0.0, v0.10.0.1, v0.10.1.0, v0.10.2.0''"

definition kafkaVersion :: "string \<Rightarrow> exit + KafkaVersion" where
  "kafkaVersion s =
     (let dflt = V0_10_0_0 in
      if s = ''v0.8.2.0'' then Inr V0_8_2_0
      else if s = ''v0.8.2.1'' then Inr V0_8_2_1
      else if s = ''v0.8.2.2'' then Inr V0_8_2_2
      else if s = ''v0.9.0.0'' then Inr V0_9_0_0
      else if s = ''v0.9.0.1'' then Inr V0_9_0_1
      else if s = ''v0.10.0.0'' then Inr V0_10_0_0
      else if s = ''v0.10.0.1'' then Inr V0_10_0_1
      else if s = ''v0.10.1.0'' then Inr V0_10_1_0
      else if s = ''v0.10.2.0'' then Inr V0_10_2_0
      else if s = '''' then Inr dflt
      else Inl (failf unsupported_kafka_version [s]))"

section \<open>Transform selector\<close>

text \<open>
  The environment is a map from names to values; \<^verbatim>\<open>os.Getenv\<close> returns the empty string
  for a name that is not set. The function returns a value and an error, of which
  one is empty; the error made by \<^verbatim>\<open>fmt.Errorf\<close> is kept as the format and its arguments.
\<close>

datatype error = Errorf string "string list"

definition Getenv :: "(string \<rightharpoonup> string) \<Rightarrow> string \<Rightarrow> string" where
  "Getenv env key = (case env key of None \<Rightarrow> [] | Some v \<Rightarrow> v)"

definition getTransformValue ::
  "(string \<rightharpoonup> string) \<Rightarrow> string \<Rightarrow> string \<Rightarrow> string \<Rightarrow> string \<times> error option" where
  "getTransformValue env name envvar argvalue =
     (let value = (if argvalue = [] then Getenv env envvar else argvalue) in
      if value = ''string'' \<or> value = ''hex'' \<or> value = ''base64'' then (value, None)
      else if value = [] then (''string'', None)
      else ([], Some (Errorf
        ''unsupported %s argument %#v, only string, hex and base64 are supported''
        [name, value])))"

section \<open>Reference definitions for the resolvers\<close>

text \<open>
  The version strings that the message of \<^verbatim>\<open>kafkaVersion\<close> lists as supported, each with
  the version of the same name.
\<close>

definition supported_versions :: "(string \<times> KafkaVersion) list" where
  "supported_versions =
     [(''v0.8.2.0'', V0_8_2_0), (''v0.8.2.1'', V0_8_2_1), (''v0.8.2.2'', V0_8_2_2),
      (''v0.9.0.0'', V0_9_0_0), (''v0.9.0.1'', V0_9_0_1), (''v0.10.0.0'', V0_10_0_0),
      (''v0.10.0.1'', V0_10_0_1), (''v0.10.1.0'', V0_10_1_0), (''v0.10.2.0'', V0_10_2_0)]"

text \<open>
  The value that the transform selector is to resolve: the argument when it is not
  empty, else the value of the environment variable, else the empty string.
\<close>

definition resolved :: "(string \<rightharpoonup> string) \<Rightarrow> string \<Rightarrow> string \<Rightarrow> string" where
  "resolved env envvar argvalue =
     (if argvalue \<noteq> [] then argvalue
      else case env envvar of Some v \<Rightarrow> v | None \<Rightarrow> [])"


section \<open>Properties of the partitioner\<close>

subsection \<open>Absolute value and remainder\<close>

lemma sint_min_iff: "sint j = - 2147483648 \<longleftrightarrow> j = - 2147483648" for j :: int32
proof
  assume "sint j = - 2147483648"
  then have "(word_of_int (sint j) :: int32) = word_of_int (- 2147483648)"
    by simp
  then show "j = - 2147483648" by simp
qed simp

lemma sint_zero_iff: "sint j = 0 \<longleftrightarrow> j = 0" for j :: int32
  by (fact signed_eq_0_iff)

lemma kafkaAbs_sint:
  "sint (kafkaAbs i) = (if i = - 2147483648 then 0 else \<bar>sint i\<bar>)"
proof (cases "i = - 2147483648")
  case True
  then show ?thesis by (simp add: kafkaAbs_def)
next
  case False
  then have "sint i \<noteq> - 2147483648"
    by (simp add: sint_min_iff)
  moreover have "- 2147483648 \<le> sint i" "sint i < 2147483648"
    using sint_ge [of i] sint_lt [of i] by simp_all
  ultimately have "signed_take_bit 31 (- sint i) = - sint i"
    by (intro signed_take_bit_int_eq_self) simp_all
  with False show ?thesis
    by (simp add: kafkaAbs_def word_sless_alt sint_word_minus)
qed

lemma kafkaAbs_nonneg: "0 \<le> sint (kafkaAbs i)"
  by (simp add: kafkaAbs_sint)

lemma rem32_sint:
  assumes "0 \<le> sint a" "0 < sint b"
  shows "sint (rem32 a b) = sint a mod sint b"
proof -
  have m: "sint a smod sint b = sint a mod sint b"
    using assms by (simp add: smod_int_alt_def sgn_if)
  have "0 \<le> sint a mod sint b" "sint a mod sint b < sint b"
    using assms by simp_all
  moreover have "sint b < 2147483648"
    using sint_lt [of b] by simp
  ultimately have "signed_take_bit 31 (sint a mod sint b) = sint a mod sint b"
    by (intro signed_take_bit_int_eq_self) simp_all
  then show ?thesis
    by (simp add: rem32_def m sint_sbintrunc')
qed

lemma hashCodePartition_sint:
  "0 < sint n \<Longrightarrow> sint (hashCodePartition k n) = sint (kafkaAbs (hashCode k)) mod sint n"
  by (simp add: hashCodePartition_def word_sle_eq rem32_sint kafkaAbs_nonneg)

lemma hashCodePartition_nonpositive:
  "sint n \<le> 0 \<Longrightarrow> hashCodePartition k n = - 1"
  by (simp add: hashCodePartition_def word_sle_eq)

subsection \<open>Hashes of particular keys\<close>

lemmas hashCode_eval =
  hashCode_def runes_def hashCode_step_def EncodeRune_def first_def word_sless_alt

lemma hashCode_kafka: "hashCode ''kafka'' = 101807910"
  by (simp add: hashCode_eval)

lemma hashCode_empty: "hashCode [] = 0"
  by (simp add: hashCode_eval)

lemma hashCode_polygenelubricants: "hashCode ''polygenelubricants'' = - 2147483648"
  by (simp add: hashCode_eval)

subsection \<open>The range of the partition\<close>

text \<open>
  C1. For every key \<open>k\<close>: when the partition count \<open>n\<close> is at most 0 the partition is
  the sentinel \<open>-1\<close>, and when \<open>n\<close> is positive the partition lies in \<open>[0, n)\<close>.
\<close>

theorem hashCodePartition_range:
  "(sint n \<le> 0 \<longrightarrow> hashCodePartition k n = - 1) \<and>
   (0 < sint n \<longrightarrow>
      0 \<le> sint (hashCodePartition k n) \<and> sint (hashCodePartition k n) < sint n)"
  by (simp add: hashCodePartition_sint hashCodePartition_nonpositive)

theorem hashCodePartition_range_witness:
  "sint (0 :: int32) \<le> 0 \<and> hashCodePartition ''kafka'' 0 = - 1 \<and>
   0 < sint (7 :: int32) \<and> sint (hashCodePartition ''kafka'' 7) = 1 \<and>
   0 \<le> sint (hashCodePartition ''kafka'' 7) \<and>
   sint (hashCodePartition ''kafka'' 7) < sint (7 :: int32)"
  using hashCodePartition_range [of 0 "''kafka''"] hashCodePartition_range [of 7 "''kafka''"]
  by (simp add: hashCodePartition_sint hashCode_kafka kafkaAbs_sint)

subsection \<open>Reference values\<close>

text \<open>
  C3, as the specification states it, gives 105354032 as the hash of \<open>kafka\<close>. The
  code computes another value.
\<close>

theorem hashCode_kafka_counterexample: "hashCode ''kafka'' \<noteq> 105354032"
  by (simp add: hashCode_kafka)

text \<open>
  C3, amended. The hash of the ASCII string \<open>kafka\<close> is 101807910, which is the value
  of the Java string hash \<open>107 * 31^4 + 97 * 31^3 + 102 * 31^2 + 107 * 31 + 97\<close>, and
  the partition of the key \<open>kafka\<close> among \<open>n > 0\<close> partitions is the remainder of that
  value by \<open>n\<close>. The hash of the empty string is 0, and the partition of the empty key
  is 0 for every \<open>n > 0\<close>.
\<close>

theorem hashCode_reference_values:
  "hashCode ''kafka'' = 101807910 \<and>
   (101807910 :: int) = 107 * 31 ^ 4 + 97 * 31 ^ 3 + 102 * 31 ^ 2 + 107 * 31 + 97 \<and>
   (0 < sint n \<longrightarrow> sint (hashCodePartition ''kafka'' n) = 101807910 mod sint n) \<and>
   hashCode [] = 0 \<and>
   (0 < sint n \<longrightarrow> hashCodePartition [] n = 0)"
proof -
  have "sint (hashCodePartition [] n) = 0" if "0 < sint n"
    using that by (simp add: hashCodePartition_sint hashCode_empty kafkaAbs_sint)
  then have "hashCodePartition [] n = 0" if "0 < sint n"
    using that by (simp add: sint_zero_iff)
  then show ?thesis
    by (simp add: hashCode_kafka hashCode_empty hashCodePartition_sint kafkaAbs_sint)
qed

theorem hashCode_reference_values_witness:
  "0 < sint (12 :: int32) \<and> sint (hashCodePartition ''kafka'' 12) = 6 \<and>
   hashCodePartition [] 12 = 0"
  using hashCode_reference_values [of 12] by simp

subsection \<open>The minimum 32-bit integer\<close>

text \<open>
  C4. \<open>kafkaAbs\<close> returns the magnitude of its argument, except at the minimum 32-bit
  signed integer \<open>-2147483648\<close>, where it returns 0; its result is never negative. A
  key whose hash is that minimum goes to partition 0 for every positive partition
  count.
\<close>

theorem kafkaAbs_minimum:
  "sint (kafkaAbs i) = (if sint i = - 2147483648 then 0 else \<bar>sint i\<bar>) \<and>
   0 \<le> sint (kafkaAbs i) \<and>
   (sint (hashCode k) = - 2147483648 \<and> 0 < sint n \<longrightarrow> hashCodePartition k n = 0)"
proof -
  have "sint (hashCodePartition k n) = 0" if "sint (hashCode k) = - 2147483648" "0 < sint n"
    using that by (simp add: hashCodePartition_sint kafkaAbs_sint sint_min_iff)
  then have "hashCodePartition k n = 0" if "sint (hashCode k) = - 2147483648" "0 < sint n"
    using that by (simp add: sint_zero_iff)
  then show ?thesis
    by (simp add: kafkaAbs_sint sint_min_iff)
qed

theorem kafkaAbs_minimum_witness:
  "sint (kafkaAbs (- 2147483648)) = 0 \<and> sint (kafkaAbs (- 5)) = 5 \<and>
   sint (kafkaAbs 5) = 5 \<and>
   sint (hashCode ''polygenelubricants'') = - 2147483648 \<and> 0 < sint (7 :: int32) \<and>
   hashCodePartition ''polygenelubricants'' 7 = 0"
  using kafkaAbs_minimum [of "- 2147483648" "''polygenelubricants''" 7]
    kafkaAbs_minimum [of "- 5" "''polygenelubricants''" 7]
    kafkaAbs_minimum [of 5 "''polygenelubricants''" 7]
  by (simp add: hashCode_polygenelubricants)

section \<open>The hash is the string hash of the JVM\<close>

subsection \<open>Surrogate pairs\<close>

lemma sint_of_nat32: "n < 2147483648 \<Longrightarrow> sint (of_nat n :: int32) = int n"
  by (simp add: signed_of_nat signed_take_bit_int_eq_self)

lemma int32_eqI: "sint a = int n \<Longrightarrow> n < 2147483648 \<Longrightarrow> a = (of_nat n :: int32)"
proof -
  assume "sint a = int n" "n < 2147483648"
  then have "sint a = sint (of_nat n :: int32)"
    by (simp add: sint_of_nat32)
  then show ?thesis
    by (rule signed_word_eqI)
qed

lemma and_1023_int: "0 \<le> k \<Longrightarrow> k AND 1023 = k mod 1024" for k :: int
proof -
  have "k AND mask 10 = k mod 2 ^ 10"
    by (simp only: take_bit_eq_mask [symmetric] take_bit_eq_mod)
  then show ?thesis by (simp add: mask_eq_exp_minus_1)
qed

lemma EncodeRune_bmp:
  assumes "cp < 0x10000"
  shows "EncodeRune (of_nat cp) = (0xFFFD, 0xFFFD)"
  using assms by (simp add: EncodeRune_def word_sless_alt sint_of_nat32)

lemma EncodeRune_supplementary:
  assumes "0x10000 \<le> cp" "cp \<le> 0x10FFFF"
  shows "EncodeRune (of_nat cp) = (of_nat (high_surrogate cp), of_nat (low_surrogate cp))"
proof -
  define m where "m = cp - 0x10000"
  have m: "m < 1048576" and cp: "cp = 0x10000 + m"
    using assms by (simp_all add: m_def)
  have r': "(of_nat cp :: int32) - 0x10000 = of_nat m"
    by (simp add: cp)
  have sm: "sint (of_nat m :: int32) = int m"
    using m by (simp add: sint_of_nat32)
  have d: "int m div 1024 < 1024" "0 \<le> int m div 1024"
    using m by simp_all
  have hi: "sint (signed_drop_bit 10 (of_nat m :: int32) AND 0x3FF) = int (m div 1024)"
    using d by (simp add: signed_and_eq sint_signed_drop_bit_eq sm drop_bit_eq_div and_1023_int zdiv_int)
  have lo: "sint ((of_nat m :: int32) AND 0x3FF) = int (m mod 1024)"
    by (simp add: signed_and_eq sm and_1023_int zmod_int)
  have "0xD800 + (signed_drop_bit 10 (of_nat m :: int32) AND 0x3FF) = of_nat (0xD800 + m div 1024)"
    using d by (intro int32_eqI) (simp_all add: sint_word_add hi signed_take_bit_int_eq_self)
  moreover
  have "0xDC00 + ((of_nat m :: int32) AND 0x3FF) = of_nat (0xDC00 + m mod 1024)"
    by (intro int32_eqI) (simp_all add: sint_word_add lo signed_take_bit_int_eq_self)
  moreover have "\<not> (of_nat cp :: int32) <s 0x10000" "\<not> 0x10FFFF <s (of_nat cp :: int32)"
    using assms by (simp_all add: word_sless_alt sint_of_nat32)
  ultimately show ?thesis
    unfolding EncodeRune_def Let_def r' high_surrogate_def low_surrogate_def m_def [symmetric]
    by simp
qed

lemma hashCode_step_bmp:
  "cp < 0x10000 \<Longrightarrow> hashCode_step hc (of_nat cp) = hc * 31 + of_nat cp"
  by (simp add: hashCode_step_def EncodeRune_bmp)

lemma high_surrogate_not_FFFD:
  assumes "cp \<le> 0x10FFFF"
  shows "(of_nat (high_surrogate cp) :: int32) \<noteq> 0xFFFD"
proof
  assume "(of_nat (high_surrogate cp) :: int32) = 0xFFFD"
  then have "sint (of_nat (high_surrogate cp) :: int32) = 0xFFFD"
    by simp
  moreover have "high_surrogate cp < 0xDC00"
    using assms by (simp add: high_surrogate_def)
  ultimately show False
    by (simp add: sint_of_nat32)
qed

lemma hashCode_step_supplementary:
  assumes "0x10000 \<le> cp" "cp \<le> 0x10FFFF"
  shows "hashCode_step hc (of_nat cp) =
    (hc * 31 + of_nat (high_surrogate cp)) * 31 + of_nat (low_surrogate cp)"
  using assms high_surrogate_not_FFFD [of cp]
  by (simp add: hashCode_step_def EncodeRune_supplementary)

subsection \<open>The loop\<close>

lemma jvm_hashCode_append:
  "jvm_hashCode (us @ vs) = jvm_hashCode us * 31 ^ length vs + jvm_hashCode vs"
  by (induction us) (simp_all add: algebra_simps power_add)

lemma hashCode_loop_jvm:
  assumes "\<forall>cp \<in> set cps. cp \<le> 0x10FFFF"
  shows "hashCode_loop hc (map of_nat cps) =
    hc * 31 ^ length (utf16_units cps) + jvm_hashCode (utf16_units cps)"
  using assms
proof (induction cps arbitrary: hc)
  case Nil
  then show ?case by simp
next
  case (Cons cp cps)
  show ?case
  proof (cases "cp < 0x10000")
    case True
    with Cons show ?thesis
      by (simp add: hashCode_step_bmp algebra_simps)
  next
    case False
    with Cons show ?thesis
      by (simp add: hashCode_step_supplementary algebra_simps)
  qed
qed

subsection \<open>The decoder yields scalar values\<close>

lemma first_Some:
  assumes "first b = Some (sz, lo, hi)"
  shows "0x80 \<le> lo \<and> hi \<le> 0xBF \<and>
    (sz = 2 \<and> 0xC2 \<le> b \<and> b \<le> 0xDF \<or>
     sz = 3 \<and> 0xE0 \<le> b \<and> b \<le> 0xEF \<and> (b = 0xE0 \<longrightarrow> lo = 0xA0) \<and> (b = 0xED \<longrightarrow> hi = 0x9F) \<or>
     sz = 4 \<and> 0xF0 \<le> b \<and> b \<le> 0xF4 \<and> (b = 0xF0 \<longrightarrow> lo = 0x90) \<and> (b = 0xF4 \<longrightarrow> hi = 0x8F))"
proof -
  consider "b < 0xC2" | "0xC2 \<le> b \<and> b \<le> 0xDF" | "b = 0xE0" | "0xE1 \<le> b \<and> b \<le> 0xEC"
    | "b = 0xED" | "0xEE \<le> b \<and> b \<le> 0xEF" | "b = 0xF0" | "0xF1 \<le> b \<and> b \<le> 0xF3"
    | "b = 0xF4" | "0xF4 < b"
    by linarith
  then show ?thesis
    using assms by cases (simp_all add: first_def)
qed

lemma first_size:
  assumes "first b = Some (sz, lo, hi)"
  shows "sz = 2 \<or> sz = 3 \<or> sz = 4"
  using first_Some [OF assms] by blast

lemma Decode_ascii:
  assumes "DecodeRuneInString (s0 # rest) = (r, w)" "s0 < 0x80"
  shows "r = s0 \<and> w = 1"
  using assms by simp

lemma Decode_none:
  assumes "DecodeRuneInString (s0 # rest) = (r, w)" "\<not> s0 < 0x80" "first s0 = None"
  shows "r = RuneError \<and> w = 1"
  using assms by simp

lemma Decode_two:
  assumes "DecodeRuneInString (s0 # rest) = (r, w)" "\<not> s0 < 0x80" "first s0 = Some (2, lo, hi')"
  shows "r = RuneError \<and> w = 1 \<or>
        1 \<le> length rest \<and> lo \<le> rest ! 0 \<and> rest ! 0 \<le> hi' \<and>
        r = s0 mod 32 * 64 + rest ! 0 mod 64 \<and> w = 2"
  using assms by (auto simp add: Let_def not_less Suc_le_eq split: if_splits)

lemma Decode_three:
  assumes "DecodeRuneInString (s0 # rest) = (r, w)" "\<not> s0 < 0x80" "first s0 = Some (3, lo, hi')"
  shows "r = RuneError \<and> w = 1 \<or>
        2 \<le> length rest \<and> lo \<le> rest ! 0 \<and> rest ! 0 \<le> hi' \<and>
        0x80 \<le> rest ! 1 \<and> rest ! 1 \<le> 0xBF \<and>
        r = s0 mod 16 * 4096 + rest ! 0 mod 64 * 64 + rest ! 1 mod 64 \<and> w = 3"
  using assms by (auto simp add: Let_def not_less split: if_splits)

lemma Decode_four:
  assumes "DecodeRuneInString (s0 # rest) = (r, w)" "\<not> s0 < 0x80" "first s0 = Some (4, lo, hi')"
  shows "r = RuneError \<and> w = 1 \<or>
        3 \<le> length rest \<and> lo \<le> rest ! 0 \<and> rest ! 0 \<le> hi' \<and>
        0x80 \<le> rest ! 1 \<and> rest ! 1 \<le> 0xBF \<and> 0x80 \<le> rest ! 2 \<and> rest ! 2 \<le> 0xBF \<and>
        r = s0 mod 8 * 262144 + rest ! 0 mod 64 * 4096 + rest ! 1 mod 64 * 64 + rest ! 2 mod 64 \<and>
        w = 4"
  using assms by (auto simp add: Let_def not_less split: if_splits)

lemma DecodeRuneInString_cases:
  assumes "DecodeRuneInString (s0 # rest) = (r, w)"
  obtains
    (ascii) "s0 < 0x80" "r = s0" "w = 1"
  | (invalid) "r = RuneError" "w = 1"
  | (two) lo hi where "first s0 = Some (2, lo, hi)" "1 \<le> length rest"
      "lo \<le> rest ! 0" "rest ! 0 \<le> hi"
      "r = s0 mod 32 * 64 + rest ! 0 mod 64" "w = 2"
  | (three) lo hi where "first s0 = Some (3, lo, hi)" "2 \<le> length rest"
      "lo \<le> rest ! 0" "rest ! 0 \<le> hi" "0x80 \<le> rest ! 1" "rest ! 1 \<le> 0xBF"
      "r = s0 mod 16 * 4096 + rest ! 0 mod 64 * 64 + rest ! 1 mod 64" "w = 3"
  | (four) lo hi where "first s0 = Some (4, lo, hi)" "3 \<le> length rest"
      "lo \<le> rest ! 0" "rest ! 0 \<le> hi" "0x80 \<le> rest ! 1" "rest ! 1 \<le> 0xBF"
      "0x80 \<le> rest ! 2" "rest ! 2 \<le> 0xBF"
      "r = s0 mod 8 * 262144 + rest ! 0 mod 64 * 4096 + rest ! 1 mod 64 * 64 + rest ! 2 mod 64"
      "w = 4"
proof (cases "s0 < 0x80")
  case True
  from Decode_ascii [OF assms True] show ?thesis
    by (intro ascii) (simp_all add: True)
next
  case high: False
  show ?thesis
  proof (cases "first s0")
    case None
    from Decode_none [OF assms high None] show ?thesis
      by (intro invalid) simp_all
  next
    case (Some t)
    obtain sz lo hi' where t: "t = (sz, lo, hi')"
      by (cases t)
    from first_size [of s0 sz lo hi'] Some t
    consider "sz = 2" | "sz = 3" | "sz = 4"
      by blast
    then show ?thesis
    proof cases
      case 1
      with Some t have f: "first s0 = Some (2, lo, hi')" by simp
      from Decode_two [OF assms high f] show ?thesis
      proof
        assume "r = RuneError \<and> w = 1"
        then show ?thesis by (intro invalid) simp_all
      next
        assume *: "1 \<le> length rest \<and> lo \<le> rest ! 0 \<and> rest ! 0 \<le> hi' \<and>
          r = s0 mod 32 * 64 + rest ! 0 mod 64 \<and> w = 2"
        show ?thesis by (rule two [OF f]) (use * in simp_all)
      qed
    next
      case 2
      with Some t have f: "first s0 = Some (3, lo, hi')" by simp
      from Decode_three [OF assms high f] show ?thesis
      proof
        assume "r = RuneError \<and> w = 1"
        then show ?thesis by (intro invalid) simp_all
      next
        assume *: "2 \<le> length rest \<and> lo \<le> rest ! 0 \<and> rest ! 0 \<le> hi' \<and>
          0x80 \<le> rest ! 1 \<and> rest ! 1 \<le> 0xBF \<and>
          r = s0 mod 16 * 4096 + rest ! 0 mod 64 * 64 + rest ! 1 mod 64 \<and> w = 3"
        show ?thesis by (rule three [OF f]) (use * in simp_all)
      qed
    next
      case 3
      with Some t have f: "first s0 = Some (4, lo, hi')" by simp
      from Decode_four [OF assms high f] show ?thesis
      proof
        assume "r = RuneError \<and> w = 1"
        then show ?thesis by (intro invalid) simp_all
      next
        assume *: "3 \<le> length rest \<and> lo \<le> rest ! 0 \<and> rest ! 0 \<le> hi' \<and>
          0x80 \<le> rest ! 1 \<and> rest ! 1 \<le> 0xBF \<and> 0x80 \<le> rest ! 2 \<and> rest ! 2 \<le> 0xBF \<and>
          r = s0 mod 8 * 262144 + rest ! 0 mod 64 * 4096 + rest ! 1 mod 64 * 64 + rest ! 2 mod 64 \<and>
          w = 4"
        show ?thesis by (rule four [OF f]) (use * in simp_all)
      qed
    qed
  qed
qed

lemma mod_window:
  fixes x :: nat
  assumes "k * n \<le> x" "x < k * n + n"
  shows "x mod n = x - k * n"
proof -
  have "x mod n = ((x - k * n) + k * n) mod n"
    using assms by simp
  also have "\<dots> = (x - k * n) mod n"
    by (simp only: mod_mult_self1)
  also have "\<dots> = x - k * n"
    using assms by (intro mod_less) linarith
  finally show ?thesis .
qed

lemma cont_mod: "0x80 \<le> x \<Longrightarrow> x \<le> 0xBF \<Longrightarrow> x mod 64 = x - 128" for x :: nat
  using mod_window [of 2 64 x] by simp

lemma lead2_mod: "0xC2 \<le> x \<Longrightarrow> x \<le> 0xDF \<Longrightarrow> x mod 32 = x - 192" for x :: nat
  using mod_window [of 6 32 x] by simp

lemma lead3_mod: "0xE0 \<le> x \<Longrightarrow> x \<le> 0xEF \<Longrightarrow> x mod 16 = x - 224" for x :: nat
  using mod_window [of 14 16 x] by simp

lemma lead4_mod: "0xF0 \<le> x \<Longrightarrow> x \<le> 0xF4 \<Longrightarrow> x mod 8 = x - 240" for x :: nat
  using mod_window [of 30 8 x] by simp

lemma DecodeRuneInString_scalar: "scalar (fst (DecodeRuneInString bs))"
proof (cases bs)
  case Nil
  then show ?thesis by (simp add: scalar_def RuneError_def)
next
  case (Cons s0 rest)
  obtain r w where rw: "DecodeRuneInString (s0 # rest) = (r, w)"
    by (cases "DecodeRuneInString (s0 # rest)")
  then have "scalar r"
  proof (cases rule: DecodeRuneInString_cases)
    case ascii
    then show ?thesis by (simp add: scalar_def)
  next
    case invalid
    then show ?thesis by (simp add: scalar_def RuneError_def)
  next
    case (two lo hi)
    have "s0 mod 32 < 32" "rest ! 0 mod 64 < 64" by simp_all
    with two(5) show ?thesis
      unfolding scalar_def by linarith
  next
    case (three lo hi)
    from first_Some [OF three(1)] three(3,4)
    have b: "0xE0 \<le> s0" "s0 \<le> 0xEF" "0x80 \<le> rest ! 0" "rest ! 0 \<le> 0xBF"
      "s0 = 0xED \<longrightarrow> rest ! 0 \<le> 0x9F"
      by auto
    define a0 a1 a2 where "a0 = s0 - 224" and "a1 = rest ! 0 - 128" and "a2 = rest ! 1 - 128"
    have r: "r = a0 * 4096 + a1 * 64 + a2"
      using three b by (simp add: cont_mod lead3_mod a0_def a1_def a2_def)
    have "a0 \<le> 15" "a1 \<le> 63" "a2 \<le> 63" "a0 = 13 \<longrightarrow> a1 \<le> 31"
      using b three(5,6) by (auto simp: a0_def a1_def a2_def)
    then show ?thesis
      unfolding scalar_def r by (cases "a0 = 13") auto
  next
    case (four lo hi)
    from first_Some [OF four(1)] four(3,4)
    have b: "0xF0 \<le> s0" "s0 \<le> 0xF4" "0x80 \<le> rest ! 0" "rest ! 0 \<le> 0xBF"
      "s0 = 0xF4 \<longrightarrow> rest ! 0 \<le> 0x8F" "s0 = 0xF0 \<longrightarrow> 0x90 \<le> rest ! 0"
      by auto
    define a0 a1 a2 a3 where "a0 = s0 - 240" and "a1 = rest ! 0 - 128"
      and "a2 = rest ! 1 - 128" and "a3 = rest ! 2 - 128"
    have r: "r = a0 * 262144 + a1 * 4096 + a2 * 64 + a3"
      using four b by (simp add: cont_mod lead4_mod a0_def a1_def a2_def a3_def)
    have "a0 \<le> 4" "a1 \<le> 63" "a2 \<le> 63" "a3 \<le> 63" "a0 = 4 \<longrightarrow> a1 \<le> 15"
      "a0 = 0 \<longrightarrow> 16 \<le> a1"
      using b four(5-8) by (auto simp: a0_def a1_def a2_def a3_def)
    then show ?thesis
      unfolding scalar_def r by (cases "a0 = 4"; cases "a0 = 0") auto
  qed
  with Cons rw show ?thesis by simp
qed

lemma range_runes_scalar: "\<forall>r \<in> set (range_runes bs). scalar r"
proof (induction bs rule: range_runes.induct)
  case 1
  show ?case by simp
next
  case (2 b bs)
  obtain r w where rw: "DecodeRuneInString (b # bs) = (r, w)"
    by (cases "DecodeRuneInString (b # bs)")
  with DecodeRuneInString_scalar [of "b # bs"] have "scalar r"
    by simp
  moreover from 2 [OF rw [symmetric]] have "\<forall>r \<in> set (range_runes (drop w (b # bs))). scalar r" .
  ultimately show ?case
    using rw by (simp del: DecodeRuneInString.simps)
qed

subsection \<open>Decoding an encoded string\<close>

lemma Decode1: "a < 128 \<Longrightarrow> DecodeRuneInString (a # bs) = (a, 1)"
  by simp

lemma Decode2:
  assumes "2 \<le> a" "a \<le> 31" "b < 64"
  shows "DecodeRuneInString ((192 + a) # (128 + b) # bs) = (a * 64 + b, 2)"
proof -
  have f: "first (192 + a) = Some (2, 0x80, 0xBF)"
    using assms by (simp add: first_def)
  have "(192 + a) mod 32 = a" "(128 + b) mod 64 = b"
    using assms lead2_mod [of "192 + a"] cont_mod [of "128 + b"] by simp_all
  with f assms show ?thesis
    by simp
qed

lemma Decode3:
  assumes "a \<le> 15" "b < 64" "c < 64" "a = 0 \<longrightarrow> 32 \<le> b" "a = 13 \<longrightarrow> b < 32"
  shows "DecodeRuneInString ((224 + a) # (128 + b) # (128 + c) # bs) = (a * 4096 + b * 64 + c, 3)"
proof -
  consider "a = 0" | "1 \<le> a \<and> a \<le> 12" | "a = 13" | "14 \<le> a \<and> a \<le> 15"
    using assms(1) by linarith
  then obtain lo hi where f: "first (224 + a) = Some (3, lo, hi)"
    and l: "lo \<le> 128 + b" "128 + b \<le> hi"
    using assms by cases (simp_all add: first_def)
  have "(224 + a) mod 16 = a" "(128 + b) mod 64 = b" "(128 + c) mod 64 = c"
    using assms lead3_mod [of "224 + a"] cont_mod [of "128 + b"] cont_mod [of "128 + c"]
    by simp_all
  with f l assms show ?thesis
    by (simp add: not_less)
qed

lemma Decode4:
  assumes "a \<le> 4" "b < 64" "c < 64" "d < 64" "a = 0 \<longrightarrow> 16 \<le> b" "a = 4 \<longrightarrow> b < 16"
  shows "DecodeRuneInString ((240 + a) # (128 + b) # (128 + c) # (128 + d) # bs)
    = (a * 262144 + b * 4096 + c * 64 + d, 4)"
proof -
  consider "a = 0" | "1 \<le> a \<and> a \<le> 3" | "a = 4"
    using assms(1) by linarith
  then obtain lo hi where f: "first (240 + a) = Some (4, lo, hi)"
    and l: "lo \<le> 128 + b" "128 + b \<le> hi"
    using assms by cases (simp_all add: first_def)
  have "(240 + a) mod 8 = a" "(128 + b) mod 64 = b" "(128 + c) mod 64 = c"
    "(128 + d) mod 64 = d"
    using assms lead4_mod [of "240 + a"] cont_mod [of "128 + b"] cont_mod [of "128 + c"]
      cont_mod [of "128 + d"]
    by simp_all
  with f l assms show ?thesis
    by (simp add: not_less)
qed

lemma split2:
  fixes cp :: nat
  shows "cp = cp div 64 * 64 + cp mod 64"
  by simp

lemma split3:
  fixes cp :: nat
  shows "cp = cp div 4096 * 4096 + cp div 64 mod 64 * 64 + cp mod 64"
proof -
  have "cp div 64 = cp div 64 div 64 * 64 + cp div 64 mod 64"
    by simp
  moreover have "cp div 64 div 64 = cp div 4096"
    by (simp add: div_mult2_eq [symmetric])
  moreover have "cp = cp div 64 * 64 + cp mod 64"
    by simp
  ultimately show ?thesis
    by linarith
qed

lemma split4:
  fixes cp :: nat
  shows "cp = cp div 262144 * 262144 + cp div 4096 mod 64 * 4096 + cp div 64 mod 64 * 64
    + cp mod 64"
proof -
  have "cp div 4096 = cp div 4096 div 64 * 64 + cp div 4096 mod 64"
    by simp
  moreover have "cp div 4096 div 64 = cp div 262144"
    by (simp add: div_mult2_eq [symmetric])
  ultimately show ?thesis
    using split3 [of cp] by linarith
qed

lemma Decode_utf8_bytes:
  assumes "scalar cp"
  shows "DecodeRuneInString (utf8_bytes cp @ bs) = (cp, length (utf8_bytes cp))"
proof -
  consider (one) "cp < 0x80" | (two) "0x80 \<le> cp" "cp < 0x800"
    | (three) "0x800 \<le> cp" "cp < 0x10000" | (four) "0x10000 \<le> cp"
    by linarith
  then show ?thesis
  proof cases
    case one
    then show ?thesis by (simp add: utf8_bytes_def)
  next
    case two
    define a b where "a = cp div 64" and "b = cp mod 64"
    have cp: "cp = a * 64 + b" and b: "b < 64"
      by (simp_all add: a_def b_def)
    have a: "2 \<le> a" "a \<le> 31"
      using two cp b by linarith+
    have "utf8_bytes cp = [192 + a, 128 + b]"
      using two by (simp add: utf8_bytes_def a_def b_def)
    with Decode2 [OF a b, of bs] cp show ?thesis
      by simp
  next
    case three
    define a b c where "a = cp div 4096" and "b = cp div 64 mod 64" and "c = cp mod 64"
    have cp: "cp = a * 4096 + b * 64 + c" and b: "b < 64" and c: "c < 64"
      using split3 [of cp] by (simp_all add: a_def b_def c_def)
    have s: "cp < 0xD800 \<or> 0xDFFF < cp"
      using assms by (auto simp: scalar_def)
    have a: "a \<le> 15" "a = 0 \<longrightarrow> 32 \<le> b" "a = 13 \<longrightarrow> b < 32"
      using three cp b c s by auto
    have "utf8_bytes cp = [224 + a, 128 + b, 128 + c]"
      using three by (simp add: utf8_bytes_def a_def b_def c_def)
    with Decode3 [OF a(1) b c a(2,3), of bs] cp show ?thesis
      by simp
  next
    case four
    define a b c d where "a = cp div 262144" and "b = cp div 4096 mod 64"
      and "c = cp div 64 mod 64" and "d = cp mod 64"
    have cp: "cp = a * 262144 + b * 4096 + c * 64 + d"
      and b: "b < 64" and c: "c < 64" and d: "d < 64"
      using split4 [of cp] by (simp_all add: a_def b_def c_def d_def)
    have s: "cp \<le> 0x10FFFF"
      using assms by (auto simp: scalar_def)
    have a: "a \<le> 4" "a = 0 \<longrightarrow> 16 \<le> b" "a = 4 \<longrightarrow> b < 16"
      using four cp b c d s by auto
    have "utf8_bytes cp = [240 + a, 128 + b, 128 + c, 128 + d]"
      using four by (simp add: utf8_bytes_def a_def b_def c_def d_def)
    with Decode4 [OF a(1) b c d a(2,3), of bs] cp show ?thesis
      by simp
  qed
qed

lemma utf8_bytes_nonempty: "utf8_bytes cp \<noteq> []"
  by (simp add: utf8_bytes_def)

lemma utf8_bytes_byte:
  assumes "cp \<le> 0x10FFFF" "b \<in> set (utf8_bytes cp)"
  shows "b < 256"
proof -
  have "cp mod 64 < 64" "cp div 64 mod 64 < 64" "cp div 4096 mod 64 < 64"
    by simp_all
  moreover have "cp < 0x800 \<longrightarrow> cp div 64 < 32" "cp < 0x10000 \<longrightarrow> cp div 4096 < 16"
    "cp div 262144 < 5"
    using assms(1) by (simp_all add: less_mult_imp_div_less)
  ultimately show ?thesis
    using assms(2) by (auto simp: utf8_bytes_def split: if_splits)
qed

lemma range_runes_utf8:
  assumes "\<forall>cp \<in> set cps. scalar cp"
  shows "range_runes (concat (map utf8_bytes cps)) = cps"
  using assms
proof (induction cps)
  case Nil
  show ?case by simp
next
  case (Cons cp cps)
  obtain b bs where bs: "utf8_bytes cp = b # bs"
    using utf8_bytes_nonempty [of cp] by (cases "utf8_bytes cp") auto
  have "DecodeRuneInString (b # bs @ concat (map utf8_bytes cps)) = (cp, length (b # bs))"
    using Decode_utf8_bytes [of cp "concat (map utf8_bytes cps)"] Cons.prems bs by simp
  moreover have "range_runes (concat (map utf8_bytes cps)) = cps"
    using Cons by simp
  ultimately show ?case
    by (simp add: bs del: DecodeRuneInString.simps)
qed

lemma of_char_utf8_string:
  assumes "\<forall>cp \<in> set cps. scalar cp"
  shows "map of_char (utf8_string cps) = concat (map utf8_bytes cps)"
proof -
  have "\<forall>b \<in> set (concat (map utf8_bytes cps)). b < 256"
    using assms utf8_bytes_byte by (auto simp: scalar_def)
  then have "map (\<lambda>b. b mod 256) (concat (map utf8_bytes cps)) = concat (map utf8_bytes cps)"
    by (intro map_idI) auto
  then show ?thesis
    by (simp add: utf8_string_def comp_def)
qed

lemma hashCode_jvm:
  "hashCode s = jvm_hashCode (utf16_units (range_runes (map of_char s)))"
proof -
  have "\<forall>cp \<in> set (range_runes (map of_char s)). cp \<le> 0x10FFFF"
    using range_runes_scalar [of "map of_char s"] by (simp add: scalar_def)
  then show ?thesis
    by (simp add: hashCode_def runes_def hashCode_loop_jvm)
qed

subsection \<open>The hash of a key\<close>

text \<open>
  C2. \<open>hashCode\<close> folds the code points of the key in the order in which the
  \<^verbatim>\<open>range\<close> loop decodes them, and each of them is a Unicode scalar value. A code point
  of the Basic Multilingual Plane, among them \<^verbatim>\<open>U+FFFD\<close> which marks undecodable input, is
  folded once as \<open>hc * 31 + cp\<close>; a code point beyond it is folded as
  \<open>(hc * 31 + high) * 31 + low\<close> for its surrogate pair, in wrapping 32-bit arithmetic.
  The result is the JVM string hash of the UTF-16 units of those code points; for a
  key that is the UTF-8 encoding of scalar values \<open>cps\<close>, the loop decodes exactly \<open>cps\<close> and
  the hash is the JVM string hash of the UTF-16 encoding of \<open>cps\<close>.
\<close>

theorem hashCode_jvm_string_hash:
  "hashCode s = hashCode_loop 0 (map of_nat (range_runes (map of_char s))) \<and>
   (\<forall>r \<in> set (range_runes (map of_char s)). scalar r) \<and>
   (cp < 0x10000 \<longrightarrow> hashCode_step hc (of_nat cp) = hc * 31 + of_nat cp) \<and>
   hashCode_step hc 0xFFFD = hc * 31 + 0xFFFD \<and>
   (0x10000 \<le> cp \<and> cp \<le> 0x10FFFF \<longrightarrow>
      hashCode_step hc (of_nat cp) =
        (hc * 31 + of_nat (high_surrogate cp)) * 31 + of_nat (low_surrogate cp)) \<and>
   hashCode s = jvm_hashCode (utf16_units (range_runes (map of_char s))) \<and>
   ((\<forall>c \<in> set cps. scalar c) \<longrightarrow>
      range_runes (map of_char (utf8_string cps)) = cps \<and>
      hashCode (utf8_string cps) = jvm_hashCode (utf16_units cps))"
proof -
  have "hashCode_step hc (of_nat 0xFFFD) = hc * 31 + of_nat 0xFFFD"
    by (rule hashCode_step_bmp) simp
  then have "hashCode_step hc 0xFFFD = hc * 31 + 0xFFFD"
    by simp
  moreover have "range_runes (map of_char (utf8_string cps)) = cps"
    if "\<forall>c \<in> set cps. scalar c"
    using that by (simp add: of_char_utf8_string range_runes_utf8)
  moreover have "hashCode (utf8_string cps) = jvm_hashCode (utf16_units cps)"
    if "\<forall>c \<in> set cps. scalar c"
    using that by (simp add: hashCode_jvm of_char_utf8_string range_runes_utf8)
  moreover have "hashCode s = hashCode_loop 0 (map of_nat (range_runes (map of_char s)))"
    by (simp add: hashCode_def runes_def)
  ultimately show ?thesis
    using range_runes_scalar [of "map of_char s"] hashCode_jvm [of s]
      hashCode_step_bmp [of cp hc] hashCode_step_supplementary [of cp hc]
    by blast
qed

lemma utf8_string_example:
  "utf8_string [0x1F600, 0xE9, 0x20AC, 0x41] =
     [CHR 0xF0, CHR 0x9F, CHR 0x98, CHR 0x80, CHR 0xC3, CHR 0xA9, CHR 0xE2, CHR 0x82, CHR 0xAC,
      CHR ''A'']"
  by (simp add: utf8_string_def utf8_bytes_def char_of_def bit_Suc_0_iff)

lemma utf16_units_example:
  "utf16_units [0x1F600, 0xE9, 0x20AC, 0x41] = [0xD83D, 0xDE00, 0xE9, 0x20AC, 0x41]"
  by (simp add: high_surrogate_def low_surrogate_def)

theorem hashCode_jvm_string_hash_witness:
  "hashCode ''polygenelubricants'' = - 2147483648 \<and>
   scalar 0xFFFD \<and> scalar 0x41 \<and>
   range_runes (map of_char [CHR 0xFF, CHR ''A'']) = [0xFFFD, 0x41] \<and>
   (0x41 :: nat) < 0x10000 \<and> hashCode_step 7 0x41 = 282 \<and>
   hashCode_step 7 0xFFFD = 65750 \<and>
   (0x10000 :: nat) \<le> 0x1F600 \<and> (0x1F600 :: nat) \<le> 0x10FFFF \<and>
   hashCode_step 7 0x1F600 = (7 * 31 + 0xD83D) * 31 + 0xDE00 \<and>
   scalar 0x1F600 \<and> scalar 0xE9 \<and> scalar 0x20AC \<and>
   range_runes (map of_char [CHR 0xF0, CHR 0x9F, CHR 0x98, CHR 0x80, CHR 0xC3, CHR 0xA9,
     CHR 0xE2, CHR 0x82, CHR 0xAC, CHR ''A'']) = [0x1F600, 0xE9, 0x20AC, 0x41] \<and>
   hashCode [CHR 0xF0, CHR 0x9F, CHR 0x98, CHR 0x80, CHR 0xC3, CHR 0xA9,
     CHR 0xE2, CHR 0x82, CHR 0xAC, CHR ''A''] = jvm_hashCode [0xD83D, 0xDE00, 0xE9, 0x20AC, 0x41] \<and>
   jvm_hashCode [0xD83D, 0xDE00, 0xE9, 0x20AC, 0x41] = 1277309819"
  using hashCode_jvm_string_hash [of "''polygenelubricants''" "0x41" 7 "[]"]
    hashCode_jvm_string_hash [of "[CHR 0xFF, CHR ''A'']" "0x1F600" 7
      "[0x1F600, 0xE9, 0x20AC, 0x41]"]
  by (simp add: utf8_string_example utf16_units_example hashCode_polygenelubricants
      high_surrogate_def low_surrogate_def scalar_def first_def RuneError_def)

section \<open>Properties of the identity sanitizer\<close>

subsection \<open>The last segment\<close>

lemma Index_None: "Index s sep = None \<longleftrightarrow> sep \<notin> set s"
  by (induction s) auto

lemma Index_Some:
  "Index s sep = Some m \<Longrightarrow> s = take m s @ sep # drop (m + 1) s \<and> sep \<notin> set (take m s)"
proof (induction s arbitrary: m)
  case Nil
  then show ?case by simp
next
  case (Cons c cs)
  show ?case
  proof (cases "c = sep")
    case True
    with Cons.prems show ?thesis by simp
  next
    case False
    with Cons.prems obtain k where k: "Index cs sep = Some k" "m = Suc k"
      by auto
    from Cons.IH [OF k(1)] False k(2) show ?thesis
      by simp
  qed
qed

lemma takeWhile_stop: "\<not> P x \<Longrightarrow> takeWhile P (xs @ x # ys) = takeWhile P xs"
  by (induction xs) simp_all

lemma Split_nonempty: "Split s sep \<noteq> []"
  by (cases "Index s sep") simp_all

lemma after_last_no_sep: "sep \<notin> set s \<Longrightarrow> after_last sep s = s"
proof -
  assume "sep \<notin> set s"
  then have "takeWhile (\<lambda>c. c \<noteq> sep) (rev s) = rev s"
    by (auto simp: takeWhile_eq_all_conv)
  then show ?thesis
    unfolding after_last_def by (simp only: rev_rev_ident)
qed

lemma Split_last: "last (Split s sep) = after_last sep s"
proof (induction s sep rule: Split.induct)
  case (1 s sep)
  show ?case
  proof (cases "Index s sep")
    case None
    then have "sep \<notin> set s"
      by (simp add: Index_None)
    with None show ?thesis
      by (simp add: after_last_no_sep)
  next
    case (Some m)
    from Index_Some [OF Some] have s: "s = take m s @ sep # drop (m + 1) s" ..
    have "after_last sep s = after_last sep (take m s @ sep # drop (m + 1) s)"
      using s by simp
    also have "\<dots> = after_last sep (drop (m + 1) s)"
      by (simp add: after_last_def takeWhile_stop del: append_take_drop_id)
    finally have "after_last sep s = after_last sep (drop (m + 1) s)" .
    with 1 [OF Some] Some Split_nonempty [of "drop (m + 1) s" sep] show ?thesis
      by simp
  qed
qed

subsection \<open>Removing the matches of the regular expression\<close>

lemma Decode_high:
  assumes "DecodeRuneInString (s0 # rest) = (r, w)" "0x80 \<le> s0"
  shows "0x80 \<le> r \<and> 1 \<le> w \<and> w - 1 \<le> length rest \<and> (\<forall>i < w - 1. 0x80 \<le> rest ! i)"
  using assms(1)
proof (cases rule: DecodeRuneInString_cases)
  case ascii
  with assms(2) show ?thesis by simp
next
  case invalid
  then show ?thesis by (simp add: RuneError_def)
next
  case (two lo hi)
  from first_Some [OF two(1)] two(3)
  have b: "0xC2 \<le> s0" "s0 \<le> 0xDF" "0x80 \<le> rest ! 0"
    by auto
  have "2 * 64 \<le> s0 mod 32 * 64"
    using b by (simp add: lead2_mod)
  with two b show ?thesis
    by simp
next
  case (three lo hi)
  from first_Some [OF three(1)] three(3)
  have b: "0xE0 \<le> s0" "s0 \<le> 0xEF" "0x80 \<le> rest ! 0" "s0 = 0xE0 \<longrightarrow> 0xA0 \<le> rest ! 0"
    by auto
  have "rest ! 0 mod 64 = rest ! 0 - 128" "s0 mod 16 = s0 - 224"
    using b three(4) first_Some [OF three(1)] by (simp_all add: cont_mod lead3_mod)
  then have "0x80 \<le> s0 mod 16 * 4096 + rest ! 0 mod 64 * 64"
    using b by (cases "s0 = 0xE0") simp_all
  moreover have "0x80 \<le> rest ! i" if "i < 2" for i
  proof -
    from that consider "i = 0" | "i = 1"
      by linarith
    then show ?thesis
      using b three(5) by cases simp_all
  qed
  ultimately show ?thesis
    using three by simp
next
  case (four lo hi)
  from first_Some [OF four(1)] four(3)
  have b: "0xF0 \<le> s0" "s0 \<le> 0xF4" "0x80 \<le> rest ! 0" "s0 = 0xF0 \<longrightarrow> 0x90 \<le> rest ! 0"
    by auto
  have "rest ! 0 mod 64 = rest ! 0 - 128" "s0 mod 8 = s0 - 240"
    using b four(4) first_Some [OF four(1)] by (simp_all add: cont_mod lead4_mod)
  then have "0x80 \<le> s0 mod 8 * 262144 + rest ! 0 mod 64 * 4096"
    using b by (cases "s0 = 0xF0") simp_all
  moreover have "0x80 \<le> rest ! i" if "i < 3" for i
  proof -
    from that consider "i = 0" | "i = 1" | "i = 2"
      by linarith
    then show ?thesis
      using b four(5,7) by cases simp_all
  qed
  ultimately show ?thesis
    using four by simp
qed

lemma invalid_high: "0x80 \<le> r \<Longrightarrow> invalidClientIDCharactersRegExp r"
  by (simp add: invalidClientIDCharactersRegExp_def)

lemma filter_take_high:
  assumes "w \<le> length bs" "\<forall>i < w. 0x80 \<le> (of_char (bs ! i) :: nat)"
  shows "filter (\<lambda>c. \<not> invalidClientIDCharactersRegExp (of_char c)) (take w bs) = []"
proof -
  have "invalidClientIDCharactersRegExp (of_char c)" if "c \<in> set (take w bs)" for c
  proof -
    from that obtain i where "i < w" "i < length bs" "c = bs ! i"
      by (auto simp: in_set_conv_nth)
    with assms(2) show ?thesis
      by (simp add: invalid_high)
  qed
  then show ?thesis
    by (simp add: filter_empty_conv)
qed

lemma ReplaceAllString_filter:
  "ReplaceAllString invalidClientIDCharactersRegExp s [] =
     filter (\<lambda>c. \<not> invalidClientIDCharactersRegExp (of_char c)) s"
proof (induction s rule: length_induct)
  case (1 s)
  show ?case
  proof (cases s)
    case Nil
    then show ?thesis by simp
  next
    case (Cons c cs)
    obtain r w where rw: "DecodeRuneInString (of_char c # map of_char cs) = (r, w)"
      by (cases "DecodeRuneInString (of_char c # map of_char cs)")
    show ?thesis
    proof (cases "(of_char c :: nat) < 0x80")
      case True
      with rw have "r = of_char c" "w = 1"
        by simp_all
      moreover have "ReplaceAllString invalidClientIDCharactersRegExp cs [] =
        filter (\<lambda>c. \<not> invalidClientIDCharactersRegExp (of_char c)) cs"
        using 1 Cons by simp
      ultimately show ?thesis
        using rw Cons by (simp del: DecodeRuneInString.simps)
    next
      case False
      then have h: "0x80 \<le> (of_char c :: nat)" by simp
      from Decode_high [OF rw h]
      have dh: "0x80 \<le> r" "1 \<le> w" "w - 1 \<le> length (map of_char cs :: nat list)"
        "\<forall>i < w - 1. (0x80 :: nat) \<le> map of_char cs ! i"
        by blast+
      then have r: "invalidClientIDCharactersRegExp r" and w: "1 \<le> w" "w - 1 \<le> length cs"
        by (simp_all add: invalid_high)
      have hi: "\<forall>i < w - 1. 0x80 \<le> (of_char (cs ! i) :: nat)"
      proof (intro allI impI)
        fix i assume i: "i < w - 1"
        with w have "map of_char cs ! i = (of_char (cs ! i) :: nat)"
          by (intro nth_map) simp
        with dh(4) i show "0x80 \<le> (of_char (cs ! i) :: nat)"
          by auto
      qed
      have "\<forall>i < w. 0x80 \<le> (of_char ((c # cs) ! i) :: nat)"
        using h hi by (auto simp: nth_Cons split: nat.splits)
      with w have t: "filter (\<lambda>c. \<not> invalidClientIDCharactersRegExp (of_char c)) (take w (c # cs)) = []"
        by (intro filter_take_high) auto
      have "length (drop w (c # cs)) < length s"
        using w Cons by simp
      with 1 have "ReplaceAllString invalidClientIDCharactersRegExp (drop w (c # cs)) [] =
        filter (\<lambda>c. \<not> invalidClientIDCharactersRegExp (of_char c)) (drop w (c # cs))"
        by blast
      moreover have "filter (\<lambda>c. \<not> invalidClientIDCharactersRegExp (of_char c)) (c # cs) =
        filter (\<lambda>c. \<not> invalidClientIDCharactersRegExp (of_char c)) (take w (c # cs)) @
        filter (\<lambda>c. \<not> invalidClientIDCharactersRegExp (of_char c)) (drop w (c # cs))"
        by (simp only: filter_append [symmetric] append_take_drop_id)
      ultimately show ?thesis
        using rw r t Cons by (simp del: DecodeRuneInString.simps filter.simps drop_Suc_Cons take_Suc_Cons)
    qed
  qed
qed

lemma map_char_of_lower: "map char_of [97..<123 :: nat] = ''abcdefghijklmnopqrstuvwxyz''"
  by code_simp

lemma map_char_of_upper: "map char_of [65..<91 :: nat] = ''ABCDEFGHIJKLMNOPQRSTUVWXYZ''"
  by code_simp

lemma map_char_of_digit: "map char_of [48..<58 :: nat] = ''0123456789''"
  by code_simp

lemma map_char_of_other: "map char_of [95 :: nat, 45] = ''_-''"
  by code_simp

lemma client_id_characters_eq:
  "client_id_characters = map char_of ([97..<123] @ [65..<91] @ [48..<58] @ [95, 45 :: nat])"
  unfolding client_id_characters_def map_append
    map_char_of_lower map_char_of_upper map_char_of_digit map_char_of_other ..

lemma valid_iff_client_id_character:
  "\<not> invalidClientIDCharactersRegExp (of_char c) \<longleftrightarrow> c \<in> set client_id_characters"
proof -
  define n :: nat where "n = of_char c"
  have c: "c = char_of n" and n: "n < 256"
    by (simp_all add: n_def)
  have "c \<in> set client_id_characters \<longleftrightarrow>
    n \<in> set ([97..<123] @ [65..<91] @ [48..<58] @ [95, 45 :: nat])"
  proof
    assume "c \<in> set client_id_characters"
    then obtain m where m: "m \<in> set ([97..<123] @ [65..<91] @ [48..<58] @ [95, 45 :: nat])"
      and "c = char_of m"
      unfolding client_id_characters_eq by auto
    then have "n = m mod 256"
      by (simp add: n_def)
    moreover from m have "m < 256" by auto
    ultimately show "n \<in> set ([97..<123] @ [65..<91] @ [48..<58] @ [95, 45 :: nat])"
      using m by simp
  next
    assume "n \<in> set ([97..<123] @ [65..<91] @ [48..<58] @ [95, 45 :: nat])"
    then show "c \<in> set client_id_characters"
      unfolding client_id_characters_eq c set_map by (rule imageI)
  qed
  also have "\<dots> \<longleftrightarrow>
    (97 \<le> n \<and> n < 123) \<or> (65 \<le> n \<and> n < 91) \<or> (48 \<le> n \<and> n < 58) \<or> n = 95 \<or> n = 45"
    by (simp only: set_append set_upt Un_iff atLeastLessThan_iff list.set insert_iff
        empty_iff simp_thms)
  also have "\<dots> \<longleftrightarrow> \<not> invalidClientIDCharactersRegExp n"
    unfolding invalidClientIDCharactersRegExp_def by auto
  finally show ?thesis
    by (simp add: n_def)
qed

lemma sanitizeUsername_eq:
  "sanitizeUsername u =
     filter (\<lambda>c. \<not> invalidClientIDCharactersRegExp (of_char c)) (after_last (CHR 0x5C) u)"
proof -
  have "Split u (CHR 0x5C) ! (length (Split u (CHR 0x5C)) - 1) = last (Split u (CHR 0x5C))"
    using Split_nonempty [of u "CHR 0x5C"] by (simp add: last_conv_nth del: Split.simps)
  then show ?thesis
    by (simp add: sanitizeUsername_def Let_def ReplaceAllString_filter Split_last
        del: Split.simps)
qed

lemma sanitizeUsername_filter:
  "sanitizeUsername u = filter (\<lambda>c. c \<in> set client_id_characters) (after_last (CHR 0x5C) u)"
  by (simp add: sanitizeUsername_eq valid_iff_client_id_character)

subsection \<open>What the sanitizer returns\<close>

lemma backslash_not_client_id_character: "CHR 0x5C \<notin> set client_id_characters"
  by (simp add: client_id_characters_def)

lemma sanitizeUsername_example:
  "sanitizeUsername (''DOMAIN'' @ [CHR 0x5C] @ ''Jane Doe!'') = ''JaneDoe''"
  by (simp add: sanitizeUsername_filter after_last_def client_id_characters_def)

lemma sanitizeUsername_empty: "sanitizeUsername [] = []"
  by (simp add: sanitizeUsername_filter after_last_def)

text \<open>
  C8. For every input, the sanitizer keeps the segment behind the last backslash and
  removes from it every character that is not a letter, a digit, \<^verbatim>\<open>_\<close> or \<^verbatim>\<open>-\<close>. It
  turns \<^verbatim>\<open>DOMAIN\Jane Doe!\<close> into \<^verbatim>\<open>JaneDoe\<close> and the empty string into the empty string.
\<close>

theorem sanitizeUsername_keeps_client_id_characters:
  "sanitizeUsername u =
     filter (\<lambda>c. c \<in> set client_id_characters) (after_last (CHR 0x5C) u) \<and>
   sanitizeUsername (''DOMAIN'' @ [CHR 0x5C] @ ''Jane Doe!'') = ''JaneDoe'' \<and>
   sanitizeUsername [] = []"
  by (simp only: sanitizeUsername_filter [symmetric] sanitizeUsername_example
      sanitizeUsername_empty simp_thms)

theorem sanitizeUsername_keeps_client_id_characters_witness:
  "sanitizeUsername (''CORP'' @ [CHR 0x5C] @ ''HOST'' @ [CHR 0x5C] @ ''j.doe_1-x'') = ''jdoe_1-x'' \<and>
   after_last (CHR 0x5C) (''CORP'' @ [CHR 0x5C] @ ''HOST'' @ [CHR 0x5C] @ ''j.doe_1-x'')
     = ''j.doe_1-x''"
  using sanitizeUsername_keeps_client_id_characters
    [of "''CORP'' @ [CHR 0x5C] @ ''HOST'' @ [CHR 0x5C] @ ''j.doe_1-x''"]
  by (simp add: after_last_def client_id_characters_def)

text \<open>
  C10. The sanitizer is idempotent: its result has no backslash and only characters
  that it keeps, so that applying it again changes nothing.
\<close>

theorem sanitizeUsername_idempotent:
  "sanitizeUsername (sanitizeUsername u) = sanitizeUsername u \<and>
   CHR 0x5C \<notin> set (sanitizeUsername u) \<and>
   set (sanitizeUsername u) \<subseteq> set client_id_characters"
proof -
  have sub: "set (sanitizeUsername u) \<subseteq> set client_id_characters"
    by (auto simp: sanitizeUsername_filter)
  with backslash_not_client_id_character have no: "CHR 0x5C \<notin> set (sanitizeUsername u)"
    by blast
  then have "after_last (CHR 0x5C) (sanitizeUsername u) = sanitizeUsername u"
    by (rule after_last_no_sep)
  then have "sanitizeUsername (sanitizeUsername u) =
    filter (\<lambda>c. c \<in> set client_id_characters) (sanitizeUsername u)"
    by (simp add: sanitizeUsername_filter [of "sanitizeUsername u"])
  also have "\<dots> = sanitizeUsername u"
    using sub by (intro filter_True) blast
  finally show ?thesis
    using sub no by simp
qed

theorem sanitizeUsername_idempotent_witness:
  "sanitizeUsername (sanitizeUsername (''DOMAIN'' @ [CHR 0x5C] @ ''Jane Doe!'')) = ''JaneDoe'' \<and>
   set ''JaneDoe'' \<subseteq> set client_id_characters"
  using sanitizeUsername_idempotent [of "''DOMAIN'' @ [CHR 0x5C] @ ''Jane Doe!''"]
  by (simp add: sanitizeUsername_example [simplified] client_id_characters_def)

section \<open>Properties of the version resolver\<close>

lemma kafkaVersion_supported:
  "(s, v) \<in> set supported_versions \<Longrightarrow> kafkaVersion s = Inr v"
  by (auto simp: supported_versions_def kafkaVersion_def)

lemma kafkaVersion_empty: "kafkaVersion [] = Inr V0_10_0_0"
  by (simp add: kafkaVersion_def)

lemma kafkaVersion_unsupported:
  assumes "s \<noteq> []" "s \<notin> fst ` set supported_versions"
  shows "kafkaVersion s = Inl (Exit (unsupported_kafka_version @ [CHR 0x0A], [s]) 1)"
  using assms by (simp add: supported_versions_def kafkaVersion_def failf_def)

lemma recognized_eq:
  "{s. s \<noteq> [] \<and> \<not> isl (kafkaVersion s)} = fst ` set supported_versions"
proof (intro set_eqI iffI)
  fix s assume "s \<in> {s. s \<noteq> [] \<and> \<not> isl (kafkaVersion s)}"
  then have s: "s \<noteq> []" "\<not> isl (kafkaVersion s)"
    by simp_all
  show "s \<in> fst ` set supported_versions"
  proof (rule ccontr)
    assume "s \<notin> fst ` set supported_versions"
    with s(1) have "kafkaVersion s = Inl (Exit (unsupported_kafka_version @ [CHR 0x0A], [s]) 1)"
      by (rule kafkaVersion_unsupported)
    with s(2) show False by simp
  qed
next
  fix s assume s: "s \<in> fst ` set supported_versions"
  then obtain v where "(s, v) \<in> set supported_versions"
    by auto
  then have "kafkaVersion s = Inr v"
    by (rule kafkaVersion_supported)
  moreover from s have "s \<noteq> []"
    by (auto simp: supported_versions_def)
  ultimately show "s \<in> {s. s \<noteq> [] \<and> \<not> isl (kafkaVersion s)}"
    by simp
qed

lemma distinct_supported: "distinct (map fst supported_versions)" "length supported_versions = 9"
  by (simp_all add: supported_versions_def)

lemma card_recognized: "card {s. s \<noteq> [] \<and> \<not> isl (kafkaVersion s)} = 9"
proof -
  have "card (set (map fst supported_versions)) = length (map fst supported_versions)"
    using distinct_supported(1) by (rule distinct_card)
  then show ?thesis
    by (simp add: recognized_eq distinct_supported(2))
qed

text \<open>
  C6, as the specification states it, counts ten recognized version strings. The
  non-empty strings that \<open>kafkaVersion\<close> resolves are nine.
\<close>

theorem kafkaVersion_ten_counterexample:
  "card {s. s \<noteq> [] \<and> \<not> isl (kafkaVersion s)} \<noteq> 10"
  by (simp add: card_recognized)

text \<open>
  C6, amended. \<open>kafkaVersion\<close> ends the process with status 1 and a message about its
  argument for every non-empty string that is not one of nine version strings; it
  maps the empty string to the default version \<open>V0_10_0_0\<close>, and each of the nine
  strings, such as \<open>v0.10.1.0\<close>, to the version of that name. The strings it resolves
  are ten when the empty string is counted.
\<close>

theorem kafkaVersion_resolves:
  "(s \<noteq> [] \<and> s \<notin> fst ` set supported_versions \<longrightarrow>
      (kafkaVersion s = Inl (Exit (unsupported_kafka_version @ [CHR 0x0A], [s]) 1))) \<and>
   kafkaVersion [] = Inr V0_10_0_0 \<and>
   (\<forall>(s', v) \<in> set supported_versions. kafkaVersion s' = Inr v) \<and>
   kafkaVersion ''v0.10.1.0'' = Inr V0_10_1_0 \<and>
   {s. s \<noteq> [] \<and> \<not> isl (kafkaVersion s)} = fst ` set supported_versions \<and>
   card {s. s \<noteq> [] \<and> \<not> isl (kafkaVersion s)} = 9 \<and>
   card {s. \<not> isl (kafkaVersion s)} = 10"
proof -
  have "{s. \<not> isl (kafkaVersion s)} = insert [] {s. s \<noteq> [] \<and> \<not> isl (kafkaVersion s)}"
    using kafkaVersion_empty by auto
  moreover have "finite {s. s \<noteq> [] \<and> \<not> isl (kafkaVersion s)}"
    by (simp add: recognized_eq)
  ultimately have ten: "card {s. \<not> isl (kafkaVersion s)} = 10"
    by (simp add: card_recognized)
  have ex: "kafkaVersion ''v0.10.1.0'' = Inr V0_10_1_0"
    by (simp add: kafkaVersion_def)
  have all: "\<forall>(s', v) \<in> set supported_versions. kafkaVersion s' = Inr v"
    using kafkaVersion_supported by auto
  have bad: "s \<noteq> [] \<and> s \<notin> fst ` set supported_versions \<longrightarrow>
      (kafkaVersion s = Inl (Exit (unsupported_kafka_version @ [CHR 0x0A], [s]) 1))"
    using kafkaVersion_unsupported [of s] by blast
  from bad kafkaVersion_empty all ex recognized_eq card_recognized ten
  show ?thesis
    by (intro conjI)
qed

theorem kafkaVersion_resolves_witness:
  "''bogus'' \<noteq> [] \<and> ''bogus'' \<notin> fst ` set supported_versions \<and>
   kafkaVersion ''bogus'' = Inl (Exit (unsupported_kafka_version @ [CHR 0x0A], [''bogus'']) 1) \<and>
   (''v0.9.0.1'', V0_9_0_1) \<in> set supported_versions \<and>
   kafkaVersion ''v0.9.0.1'' = Inr V0_9_0_1"
  using kafkaVersion_resolves [of "''bogus''"]
  by (simp add: supported_versions_def)

section \<open>Properties of the transform selector\<close>

text \<open>
  C7. The selector resolves its value from \<open>argvalue\<close> when that is not empty, else
  from the environment variable \<open>envvar\<close>, else to the empty string. It returns a
  resolved \<open>string\<close>, \<open>hex\<close> or \<open>base64\<close> as it is and \<open>string\<close> for the empty value, both
  without an error; for any other value it returns an error whose message is made
  from the name of the option and the value.
\<close>

theorem getTransformValue_resolves:
  "(resolved env envvar argvalue \<in> {''string'', ''hex'', ''base64''} \<longrightarrow>
      getTransformValue env name envvar argvalue = (resolved env envvar argvalue, None)) \<and>
   (resolved env envvar argvalue = [] \<longrightarrow>
      getTransformValue env name envvar argvalue = (''string'', None)) \<and>
   (resolved env envvar argvalue \<notin> {''string'', ''hex'', ''base64'', []} \<longrightarrow>
      getTransformValue env name envvar argvalue =
        ([], Some (Errorf ''unsupported %s argument %#v, only string, hex and base64 are supported''
               [name, resolved env envvar argvalue])))"
proof -
  have "(if argvalue = [] then Getenv env envvar else argvalue) = resolved env envvar argvalue"
    by (simp add: resolved_def Getenv_def)
  then show ?thesis
    unfolding getTransformValue_def Let_def by simp
qed

theorem getTransformValue_resolves_witness:
  "getTransformValue [''KT_FORMAT'' \<mapsto> ''hex''] ''format'' ''KT_FORMAT'' [] = (''hex'', None) \<and>
   getTransformValue [''KT_FORMAT'' \<mapsto> ''hex''] ''format'' ''KT_FORMAT'' ''base64''
     = (''base64'', None) \<and>
   getTransformValue Map.empty ''format'' ''KT_FORMAT'' [] = (''string'', None) \<and>
   getTransformValue [''KT_FORMAT'' \<mapsto> ''xml''] ''format'' ''KT_FORMAT'' [] =
     ([], Some (Errorf ''unsupported %s argument %#v, only string, hex and base64 are supported''
        [''format'', ''xml'']))"
  using getTransformValue_resolves [of "[''KT_FORMAT'' \<mapsto> ''hex'']" "''KT_FORMAT''" "[]" "''format''"]
    getTransformValue_resolves [of "[''KT_FORMAT'' \<mapsto> ''hex'']" "''KT_FORMAT''" "''base64''" "''format''"]
    getTransformValue_resolves [of Map.empty "''KT_FORMAT''" "[]" "''format''"]
    getTransformValue_resolves [of "[''KT_FORMAT'' \<mapsto> ''xml'']" "''KT_FORMAT''" "[]" "''format''"]
  by (simp add: resolved_def)

section \<open>Properties of the random token generator\<close>











end
